theory Spec2Isabelle
  imports Main
begin

section \<open>Byte buffers\<close>

text \<open>
  A Node \<^verbatim>\<open>Buffer\<close> is a fixed-length array of bytes; it is modelled as a list of
  \<^typ>\<open>char\<close> (a \<^typ>\<open>char\<close> is one byte). JavaScript numbers that hold lengths and
  offsets are modelled as unbounded integers (the source only ever stores integers in
  them); allocation is assumed to succeed.
\<close>

type_synonym Buffer = "char list"

datatype error = RangeError | TransportError string

definition nl :: char where
  "nl = CHR 0x0A"

text \<open>\<^verbatim>\<open>Buffer.alloc(n)\<close>: a zero-filled buffer of \<open>n\<close> bytes.\<close>

definition alloc :: "int \<Rightarrow> Buffer" where
  "alloc n = replicate (nat n) (CHR 0x00)"

text \<open>
  The relative-index rule shared by \<^verbatim>\<open>subarray\<close> and \<^verbatim>\<open>copyWithin\<close>: a negative index
  counts from the end, and the result is clamped to \<open>[0, len]\<close>.
\<close>

definition relIndex :: "int \<Rightarrow> nat \<Rightarrow> nat" where
  "relIndex i len = (if i < 0 then nat (max (int len + i) 0) else min (nat i) len)"

text \<open>\<^verbatim>\<open>buf.subarray(start, end)\<close>: the bytes from the clamped start up to the clamped end.\<close>

definition subarray :: "Buffer \<Rightarrow> int \<Rightarrow> int \<Rightarrow> Buffer" where
  "subarray xs start fin =
     (let from = relIndex start (length xs);
          final = relIndex fin (length xs)
      in take (final - from) (drop from xs))"

text \<open>
  \<^verbatim>\<open>buf.copyWithin(target, start, end)\<close>: moves \<open>count = min (final - from) (len - to)\<close>
  bytes, read before any is written, to offset \<open>to\<close>; nothing moves when the count is
  not positive (the truncating subtraction on \<^typ>\<open>nat\<close> gives \<open>0\<close> exactly then).
  The length of the buffer never changes.
\<close>

definition copyWithin :: "Buffer \<Rightarrow> int \<Rightarrow> int \<Rightarrow> int \<Rightarrow> Buffer" where
  "copyWithin xs target start fin =
     (let len = length xs;
          to = relIndex target len;
          from = relIndex start len;
          final = relIndex fin len;
          count = min (final - from) (len - to)
      in take to xs @ take count (drop from xs) @ drop (to + count) xs)"

text \<open>
  \<^verbatim>\<open>source.copy(target, targetStart)\<close>: throws a range error on a negative
  \<open>targetStart\<close>, copies nothing when \<open>targetStart\<close> is at or past the end of the target,
  and otherwise copies as many bytes of the source as fit. Returns the target.
\<close>

definition copy :: "Buffer \<Rightarrow> Buffer \<Rightarrow> int \<Rightarrow> error + Buffer" where
  "copy source target targetStart =
     (if targetStart < 0 then Inl RangeError
      else if length target \<le> nat targetStart then Inr target
      else
        (let nb = min (length source) (length target - nat targetStart)
         in Inr (take (nat targetStart) target @ take nb source
                   @ drop (nat targetStart + nb) target)))"

text \<open>\<^verbatim>\<open>buf.indexOf(c)\<close>: the index of the first occurrence of the byte, or \<open>-1\<close>.\<close>

fun indexOf :: "Buffer \<Rightarrow> char \<Rightarrow> int" where
  "indexOf [] c = - 1"
| "indexOf (x # xs) c =
     (if x = c then 0
      else (let i = indexOf xs c in if i < 0 then - 1 else i + 1))"

section \<open>The dynamic buffer\<close>

text \<open>\<^verbatim>\<open>type DynBuf = { data: Buffer; size: number }\<close>\<close>

record DynBuf =
  data :: Buffer
  size_b :: int

text \<open>
  The loop \<^verbatim>\<open>while (cap < newLen) cap *= 2\<close> of \<^verbatim>\<open>bufPush\<close>. The source enters it with
  \<^verbatim>\<open>cap = Math.max(buf.data.length, 32)\<close>, so \<open>cap\<close> is positive at every test of the
  loop condition; the conjunct \<open>0 < cap\<close> records that and is what the termination
  proof uses (lemma \<open>growCap_unfold\<close> below gives the loop's own equation).
\<close>

function growCap :: "int \<Rightarrow> int \<Rightarrow> int" where
  "growCap cap newLen = (if cap < newLen \<and> 0 < cap then growCap (cap * 2) newLen else cap)"
  by pat_completeness auto
termination
  by (relation "measure (\<lambda>(cap, newLen). nat (newLen - cap))") auto

definition bufPush :: "DynBuf \<Rightarrow> Buffer \<Rightarrow> error + DynBuf" where
  "bufPush buf d =
     (let newLen = size_b buf + int (length d) in
      case (if newLen > int (length (data buf)) then
              (let cap = growCap (max (int (length (data buf))) 32) newLen;
                   grown = alloc cap
               in case copy (data buf) grown 0 of
                    Inl e \<Rightarrow> Inl e
                  | Inr grown' \<Rightarrow> Inr (buf\<lparr>data := grown'\<rparr>))
            else Inr buf) of
        Inl e \<Rightarrow> Inl e
      | Inr buf1 \<Rightarrow>
          (case copy d (data buf1) (size_b buf1) of
             Inl e \<Rightarrow> Inl e
           | Inr data' \<Rightarrow> Inr (buf1\<lparr>data := data', size_b := newLen\<rparr>)))"

definition bufPop :: "DynBuf \<Rightarrow> int \<Rightarrow> DynBuf" where
  "bufPop buf len =
     buf\<lparr>data := copyWithin (data buf) 0 len (size_b buf), size_b := size_b buf - len\<rparr>"

text \<open>
  \<^verbatim>\<open>cutMessage\<close> returns the message (or \<open>None\<close> for \<^verbatim>\<open>null\<close>) together with the
  buffer as the call leaves it. \<^verbatim>\<open>Buffer.from\<close> copies the bytes of the view it is given,
  so the message is a value of its own, taken before \<^verbatim>\<open>bufPop\<close> moves the bytes.
\<close>

definition cutMessage :: "DynBuf \<Rightarrow> Buffer option \<times> DynBuf" where
  "cutMessage buf =
     (let idx = indexOf (subarray (data buf) 0 (size_b buf)) nl in
      if idx < 0 then (None, buf)
      else
        (let msg = subarray (data buf) 0 (idx + 1)
         in (Some msg, bufPop buf (idx + 1))))"

text \<open>The buffer a handler starts with: \<^verbatim>\<open>{ data: Buffer.alloc(0), size: 0 }\<close>.\<close>

definition emptyBuf :: DynBuf where
  "emptyBuf = \<lparr>data = alloc 0, size_b = 0\<rparr>"

text \<open>The used region \<open>[0, size)\<close> and the buffer invariant \<open>0 \<le> size \<le> capacity\<close>.\<close>

definition used :: "DynBuf \<Rightarrow> Buffer" where
  "used buf = take (nat (size_b buf)) (data buf)"

definition capacity :: "DynBuf \<Rightarrow> int" where
  "capacity buf = int (length (data buf))"

definition wfBuf :: "DynBuf \<Rightarrow> bool" where
  "wfBuf buf \<longleftrightarrow> 0 \<le> size_b buf \<and> size_b buf \<le> capacity buf"

section \<open>The connection adapter\<close>

text \<open>
  The transport (\<^verbatim>\<open>net.Socket\<close>) is outside the program. What the program does to it is
  the sequence of calls it makes on it, kept in order: \<^verbatim>\<open>resume()\<close>, \<^verbatim>\<open>pause()\<close>,
  \<^verbatim>\<open>write(data, cb)\<close> and \<^verbatim>\<open>destroy()\<close>. What the transport does to the program is the
  events it emits and the completion callbacks of the writes (type \<open>event\<close> below).

  \<^verbatim>\<open>main\<close> wraps every accepted socket twice: the \<^verbatim>\<open>connection\<close> callback of \<^verbatim>\<open>soListen\<close>
  calls \<^verbatim>\<open>soInit\<close>, and \<^verbatim>\<open>serveClient\<close> calls it again on the same socket. The first
  wrapper never holds a reader: its callbacks repeat \<^verbatim>\<open>pause()\<close> and set fields that
  nothing reads. The log below is the one of the wrapper that \<^verbatim>\<open>serveClient\<close> builds and
  of \<^verbatim>\<open>serveClient\<close> itself.
\<close>

datatype call = Resume | Pause | Write Buffer | Destroy

type_synonym Socket = "call list"

text \<open>
  \<^verbatim>\<open>type TCPConn = { socket; err: null | Error; ended: boolean; reader: null | {resolve, reject} }\<close>.
  The field \<open>reader\<close> tells whether a pending read has left its \<^verbatim>\<open>{resolve, reject}\<close>
  pair in the connection.
\<close>

record TCPConn =
  socket :: Socket
  err :: "error option"
  ended :: bool
  reader :: bool

text \<open>How a promise is settled.\<close>

datatype 'a settle = Resolve 'a | Reject error

text \<open>
  \<^verbatim>\<open>soInit\<close> builds the connection record and registers three callbacks on the socket;
  the callbacks are the functions \<open>onData\<close>, \<open>onEnd\<close> and \<open>onError\<close>. Each returns how it
  settles the pending read (\<open>None\<close> when there is no reader) and the connection it leaves.
\<close>

definition soInit :: "Socket \<Rightarrow> TCPConn" where
  "soInit sock = \<lparr>socket = sock, err = None, ended = False, reader = False\<rparr>"

definition onData :: "Buffer \<Rightarrow> TCPConn \<Rightarrow> Buffer settle option \<times> TCPConn" where
  "onData d conn =
     (let conn1 = conn\<lparr>socket := socket conn @ [Pause]\<rparr>
      in (if reader conn1 then Some (Resolve d) else None, conn1\<lparr>reader := False\<rparr>))"

definition onEnd :: "TCPConn \<Rightarrow> Buffer settle option \<times> TCPConn" where
  "onEnd conn =
     (let conn1 = conn\<lparr>ended := True\<rparr>
      in if reader conn1 then (Some (Resolve []), conn1\<lparr>reader := False\<rparr>)
         else (None, conn1))"

definition onError :: "error \<Rightarrow> TCPConn \<Rightarrow> Buffer settle option \<times> TCPConn" where
  "onError e conn =
     (let conn1 = conn\<lparr>err := Some e\<rparr>
      in if reader conn1 then (Some (Reject e), conn1\<lparr>reader := False\<rparr>)
         else (None, conn1))"

text \<open>
  \<^verbatim>\<open>soRead\<close> and \<^verbatim>\<open>soWrite\<close> return the promise as the executor leaves it: \<open>Some s\<close> when
  it is settled before the call returns, \<open>None\<close> when it is pending. A pending write is
  settled by the transport's completion callback, \<open>writeCallback\<close>.
\<close>

definition soRead :: "TCPConn \<Rightarrow> Buffer settle option \<times> TCPConn" where
  "soRead conn =
     (case err conn of
        Some e \<Rightarrow> (Some (Reject e), conn)
      | None \<Rightarrow>
          if ended conn then (Some (Resolve []), conn)
          else (None, conn\<lparr>reader := True, socket := socket conn @ [Resume]\<rparr>))"

definition soWrite :: "TCPConn \<Rightarrow> Buffer \<Rightarrow> unit settle option \<times> TCPConn" where
  "soWrite conn d =
     (case err conn of
        Some e \<Rightarrow> (Some (Reject e), conn)
      | None \<Rightarrow> (None, conn\<lparr>socket := socket conn @ [Write d]\<rparr>))"

definition writeCallback :: "error option \<Rightarrow> unit settle" where
  "writeCallback r = (case r of Some e \<Rightarrow> Reject e | None \<Rightarrow> Resolve ())"

section \<open>The connection handler\<close>

text \<open>
  \<^verbatim>\<open>serveClient\<close> is an \<^verbatim>\<open>async\<close> function: it runs until an \<^verbatim>\<open>await\<close> on a pending
  promise, and is resumed when that promise is settled. A handler is the connection, the
  buffer and the point where it stands: suspended in \<^verbatim>\<open>await soRead\<close>, suspended in one of
  the two \<^verbatim>\<open>await soWrite\<close> (the \<^verbatim>\<open>quit\<close> branch or the echo branch), returned (the
  \<^verbatim>\<open>break\<close>), or ended by an exception (a rejected \<^verbatim>\<open>await\<close>, or a throw of \<^verbatim>\<open>bufPush\<close>).
\<close>

datatype wsite = QuitWrite | EchoWrite

datatype pc = AwaitRead | AwaitWrite wsite | Returned | Threw error

record Handler =
  conn :: TCPConn
  buf :: DynBuf
  pc :: pc

definition quitMsg :: Buffer where "quitMsg = ''quit'' @ [nl]"
definition byeMsg :: Buffer where "byeMsg = ''Bye'' @ [nl]"
definition echoPrefix :: Buffer where "echoPrefix = ''Echo: ''"

text \<open>
  \<open>serveLoop\<close> is the body of \<^verbatim>\<open>while (true)\<close> from its top; \<open>afterRead\<close> is the code that
  follows \<^verbatim>\<open>await soRead(conn)\<close> and \<open>afterWrite\<close> the code that follows either
  \<^verbatim>\<open>await soWrite\<close>, each given the settlement of the awaited promise. An \<^verbatim>\<open>await\<close> on a
  promise that is already settled goes on at once. The recursion ends because a read that
  is settled at once is rejected or empty, and a write that is settled at once is rejected.
\<close>

function serveLoop :: "TCPConn \<Rightarrow> DynBuf \<Rightarrow> Handler"
  and afterRead :: "Buffer settle \<Rightarrow> TCPConn \<Rightarrow> DynBuf \<Rightarrow> Handler"
  and afterWrite :: "unit settle \<Rightarrow> wsite \<Rightarrow> TCPConn \<Rightarrow> DynBuf \<Rightarrow> Handler"
where
  "serveLoop c b =
     (case cutMessage b of
        (None, b1) \<Rightarrow>
          (case soRead c of
             (None, c1) \<Rightarrow> \<lparr>conn = c1, buf = b1, pc = AwaitRead\<rparr>
           | (Some s, c1) \<Rightarrow> afterRead s c1 b1)
      | (Some msg, b1) \<Rightarrow>
          if msg = quitMsg then
            (case soWrite c byeMsg of
               (None, c1) \<Rightarrow> \<lparr>conn = c1, buf = b1, pc = AwaitWrite QuitWrite\<rparr>
             | (Some s, c1) \<Rightarrow> afterWrite s QuitWrite c1 b1)
          else
            (case soWrite c (echoPrefix @ msg) of
               (None, c1) \<Rightarrow> \<lparr>conn = c1, buf = b1, pc = AwaitWrite EchoWrite\<rparr>
             | (Some s, c1) \<Rightarrow> afterWrite s EchoWrite c1 b1))"
| "afterRead (Reject e) c b = \<lparr>conn = c, buf = b, pc = Threw e\<rparr>"
| "afterRead (Resolve d) c b =
     (case bufPush b d of
        Inl e \<Rightarrow> \<lparr>conn = c, buf = b, pc = Threw e\<rparr>
      | Inr b1 \<Rightarrow>
          if length d = 0 then \<lparr>conn = c, buf = b1, pc = Returned\<rparr>
          else serveLoop c b1)"
| "afterWrite (Reject e) site c b = \<lparr>conn = c, buf = b, pc = Threw e\<rparr>"
| "afterWrite (Resolve u) site c b =
     (case site of
        QuitWrite \<Rightarrow> serveLoop (c\<lparr>socket := socket c @ [Destroy]\<rparr>) b
      | EchoWrite \<Rightarrow> serveLoop c b)"
  by pat_completeness auto
termination
proof (relation "measure (\<lambda>x. case x of
          Inl (c, b) \<Rightarrow> 1
        | Inr (Inl (s, c, b)) \<Rightarrow> (case s of Resolve d \<Rightarrow> if d = [] then 0 else 2 | Reject e \<Rightarrow> 0)
        | Inr (Inr (s, site, c, b)) \<Rightarrow> (case s of Resolve u \<Rightarrow> 2 | Reject e \<Rightarrow> 0))",
       goal_cases)
  case 1
  show ?case by simp
next
  case (2 c b x1 b1 x2 c1 s)
  then show ?case by (auto simp: soRead_def split: option.splits if_splits)
next
  case (3 c b x1 b1 msg x2 c1 s)
  then show ?case by (auto simp: soWrite_def split: option.splits)
next
  case (4 c b x1 b1 msg x2 c1 s)
  then show ?case by (auto simp: soWrite_def split: option.splits)
next
  case (5 d c b b1)
  then show ?case by simp
next
  case (6 u site c b)
  then show ?case by simp
next
  case (7 u site c b)
  then show ?case by simp
qed

text \<open>\<^verbatim>\<open>serveClient(socket)\<close> up to its first suspension.\<close>

definition serveClient :: "Socket \<Rightarrow> Handler" where
  "serveClient sock = serveLoop (soInit sock) emptyBuf"

text \<open>
  What the transport does: a \<^verbatim>\<open>data\<close>, \<^verbatim>\<open>end\<close> or \<^verbatim>\<open>error\<close> event, or the completion
  callback of the outstanding write (with its error, if any). An event runs its callback;
  when that settles the promise the handler is suspended on, the handler goes on from
  there.
\<close>

datatype event = Data Buffer | End | Error error | WriteDone "error option"

definition settleRead :: "Buffer settle option \<times> TCPConn \<Rightarrow> Handler \<Rightarrow> Handler" where
  "settleRead r h =
     (case r of
        (Some s, c1) \<Rightarrow> if pc h = AwaitRead then afterRead s c1 (buf h) else h\<lparr>conn := c1\<rparr>
      | (None, c1) \<Rightarrow> h\<lparr>conn := c1\<rparr>)"

fun deliver :: "event \<Rightarrow> Handler \<Rightarrow> Handler" where
  "deliver (Data d) h = settleRead (onData d (conn h)) h"
| "deliver End h = settleRead (onEnd (conn h)) h"
| "deliver (Error e) h = settleRead (onError e (conn h)) h"
| "deliver (WriteDone r) h =
     (case pc h of
        AwaitWrite site \<Rightarrow> afterWrite (writeCallback r) site (conn h) (buf h)
      | _ \<Rightarrow> h)"

section \<open>Notions used to state the properties\<close>

text \<open>A message: bytes that end with the delimiter and hold no other delimiter.\<close>

definition isMessage :: "Buffer \<Rightarrow> bool" where
  "isMessage m \<longleftrightarrow> m \<noteq> [] \<and> last m = nl \<and> nl \<notin> set (butlast m)"

text \<open>Pushing chunks one after the other; \<open>n\<close> successive calls of \<^verbatim>\<open>cutMessage\<close>.\<close>

fun pushAll :: "DynBuf \<Rightarrow> Buffer list \<Rightarrow> error + DynBuf" where
  "pushAll b [] = Inr b"
| "pushAll b (d # ds) = (case bufPush b d of Inl e \<Rightarrow> Inl e | Inr b1 \<Rightarrow> pushAll b1 ds)"

fun cutN :: "nat \<Rightarrow> DynBuf \<Rightarrow> Buffer option list \<times> DynBuf" where
  "cutN 0 b = ([], b)"
| "cutN (Suc n) b =
     (case cutMessage b of (m, b1) \<Rightarrow> (case cutN n b1 of (ms, b2) \<Rightarrow> (m # ms, b2)))"

text \<open>
  Sequences of \<^verbatim>\<open>bufPush\<close> and \<^verbatim>\<open>bufPop\<close>. \<open>legalOps\<close> holds when every pop of the
  sequence meets the precondition \<open>0 \<le> n \<le> size\<close> in the state where it runs;
  \<open>peakUsed\<close> is the largest \<open>size\<close> among the states the sequence goes through.
\<close>

datatype bufOp = Push Buffer | Pop int

fun stepOp :: "bufOp \<Rightarrow> DynBuf \<Rightarrow> error + DynBuf" where
  "stepOp (Push d) b = bufPush b d"
| "stepOp (Pop n) b = Inr (bufPop b n)"

fun legalOp :: "bufOp \<Rightarrow> DynBuf \<Rightarrow> bool" where
  "legalOp (Push d) b = True"
| "legalOp (Pop n) b = (0 \<le> n \<and> n \<le> size_b b)"

fun runOps :: "bufOp list \<Rightarrow> DynBuf \<Rightarrow> error + DynBuf" where
  "runOps [] b = Inr b"
| "runOps (x # xs) b = (case stepOp x b of Inl e \<Rightarrow> Inl e | Inr b1 \<Rightarrow> runOps xs b1)"

fun legalOps :: "bufOp list \<Rightarrow> DynBuf \<Rightarrow> bool" where
  "legalOps [] b = True"
| "legalOps (x # xs) b =
     (legalOp x b \<and> (case stepOp x b of Inl e \<Rightarrow> True | Inr b1 \<Rightarrow> legalOps xs b1))"

fun peakUsed :: "bufOp list \<Rightarrow> DynBuf \<Rightarrow> int" where
  "peakUsed [] b = size_b b"
| "peakUsed (x # xs) b =
     max (size_b b) (case stepOp x b of Inl e \<Rightarrow> size_b b | Inr b1 \<Rightarrow> peakUsed xs b1)"

text \<open>
  The growth rule in the specification's words: the capacity is the smallest value of the
  form \<open>32 * 2 ^ k\<close> that is at least the peak.
\<close>

definition doublingRule :: "int \<Rightarrow> int \<Rightarrow> bool" where
  "doublingRule cap peak \<longleftrightarrow>
     (\<exists>k::nat. cap = 32 * 2 ^ k) \<and> peak \<le> cap
       \<and> (\<forall>j::nat. peak \<le> 32 * 2 ^ j \<longrightarrow> cap \<le> 32 * 2 ^ j)"

text \<open>
  What can happen to a connection between two calls: a call of \<^verbatim>\<open>soRead\<close> or
  \<^verbatim>\<open>soWrite\<close>, or an event of the transport.
\<close>

datatype connOp = CallRead | CallWrite Buffer | Event event

fun connStep :: "connOp \<Rightarrow> TCPConn \<Rightarrow> TCPConn" where
  "connStep CallRead c = snd (soRead c)"
| "connStep (CallWrite d) c = snd (soWrite c d)"
| "connStep (Event (Data d)) c = snd (onData d c)"
| "connStep (Event End) c = snd (onEnd c)"
| "connStep (Event (Error e)) c = snd (onError e c)"
| "connStep (Event (WriteDone r)) c = c"

fun isErrorEvent :: "connOp \<Rightarrow> bool" where
  "isErrorEvent (Event (Error e)) = True"
| "isErrorEvent x = False"

text \<open>A handler blocked in a read on a connection with no error and no end-of-stream.\<close>

definition blockedInRead :: "Handler \<Rightarrow> bool" where
  "blockedInRead h \<longleftrightarrow>
     pc h = AwaitRead \<and> reader (conn h) \<and> err (conn h) = None \<and> \<not> ended (conn h)
       \<and> wfBuf (buf h)"






text \<open>
  The invariant carried along a sequence of operations, with \<open>p\<close> the peak so far: the
  buffer invariant, \<open>size \<le> p\<close>, and the capacity \<open>0\<close> as long as nothing was stored
  and ruled by \<open>doublingRule\<close> afterwards.
\<close>

definition capRule :: "DynBuf \<Rightarrow> int \<Rightarrow> bool" where
  "capRule b p \<longleftrightarrow> wfBuf b \<and> size_b b \<le> p
     \<and> (if p = 0 then capacity b = 0 else doublingRule (capacity b) p)"

section \<open>Facts about buffers\<close>

declare growCap.simps [simp del]
declare serveLoop.simps [simp del]

lemma growCap_unfold:
  "0 < cap \<Longrightarrow> growCap cap newLen = (if cap < newLen then growCap (cap * 2) newLen else cap)"
  by (subst growCap.simps) simp

lemma subarray_from0: "0 \<le> n \<Longrightarrow> subarray xs 0 n = take (nat n) xs"
  by (cases "nat n \<le> length xs") (simp_all add: subarray_def relIndex_def Let_def)

lemma subarray_used: "0 \<le> size_b b \<Longrightarrow> subarray (data b) 0 (size_b b) = used b"
  by (simp add: subarray_from0 used_def)

lemma indexOf_neg_iff: "indexOf xs c < 0 \<longleftrightarrow> c \<notin> set xs"
  by (induction xs) (auto simp: Let_def)

lemma indexOf_append_hit: "c \<notin> set xs \<Longrightarrow> indexOf (xs @ c # ys) c = int (length xs)"
  by (induction xs) (auto simp: Let_def)

lemma relIndex_le: "relIndex i len \<le> len"
  unfolding relIndex_def by (cases "i < 0") simp_all

lemma relIndex_0: "relIndex 0 len = 0"
  by (simp add: relIndex_def)

lemma copyWithin_length: "length (copyWithin xs t s f) = length xs"
proof -
  have "relIndex t (length xs) \<le> length xs" "relIndex s (length xs) \<le> length xs"
       "relIndex f (length xs) \<le> length xs"
    by (rule relIndex_le)+
  then show ?thesis
    unfolding copyWithin_def Let_def by simp
qed

lemma copyWithin_shift:
  assumes "0 \<le> n" "n \<le> sz" "sz \<le> int (length xs)"
  shows "copyWithin xs 0 n sz = take (nat (sz - n)) (drop (nat n) xs) @ drop (nat (sz - n)) xs"
proof -
  have a: "relIndex n (length xs) = nat n" using assms by (simp add: relIndex_def)
  have b: "relIndex sz (length xs) = nat sz" using assms by (simp add: relIndex_def)
  have c: "min (nat sz - nat n) (length xs) = nat (sz - n)" using assms by (simp add: nat_diff_distrib)
  show ?thesis
    unfolding copyWithin_def Let_def by (simp add: a b c relIndex_0)
qed

lemma growCap_ge: "0 < cap \<Longrightarrow> newLen \<le> growCap cap newLen \<and> cap \<le> growCap cap newLen"
proof (induction cap newLen rule: growCap.induct)
  case (1 cap newLen)
  then show ?case by (cases "cap < newLen") (simp_all add: growCap_unfold [of cap])
qed

lemma growCap_form: "0 < cap \<Longrightarrow> \<exists>k. growCap cap newLen = cap * 2 ^ k"
proof (induction cap newLen rule: growCap.induct)
  case (1 cap newLen)
  show ?case
  proof (cases "cap < newLen")
    case True
    with 1 obtain k where "growCap (cap * 2) newLen = cap * 2 * 2 ^ k" by auto
    then have "growCap cap newLen = cap * 2 ^ Suc k" using True 1(2) by (subst growCap.simps) simp
    then show ?thesis by blast
  next
    case False
    then have "growCap cap newLen = cap * 2 ^ 0" by (subst growCap.simps) simp
    then show ?thesis by blast
  qed
qed

lemma growCap_tight: "0 < cap \<Longrightarrow> cap < newLen \<Longrightarrow> growCap cap newLen < 2 * newLen"
proof (induction cap newLen rule: growCap.induct)
  case (1 cap newLen)
  show ?case
  proof (cases "cap * 2 < newLen")
    case True
    with 1 show ?thesis by (simp add: growCap_unfold [of cap])
  next
    case False
    with 1(2,3) show ?thesis by (simp add: growCap_unfold [of cap] growCap_unfold [of "cap * 2"])
  qed
qed

lemma copy_at:
  assumes "0 \<le> s" "nat s + length d \<le> length tgt"
  shows "copy d tgt s = Inr (take (nat s) tgt @ d @ drop (nat s + length d) tgt)"
proof (cases "length tgt \<le> nat s")
  case True
  with assms have "length d = 0" "nat s = length tgt" by linarith+
  then have "d = []" "nat s = length tgt" by simp_all
  with assms True show ?thesis by (simp add: copy_def)
next
  case False
  with assms have "min (length d) (length tgt - nat s) = length d" by simp
  with assms False show ?thesis by (simp add: copy_def Let_def)
qed

lemma cutMessage_none:
  "nl \<notin> set (subarray (data b) 0 (size_b b)) \<Longrightarrow> cutMessage b = (None, b)"
  by (simp add: cutMessage_def Let_def indexOf_neg_iff)

lemma used_length: "wfBuf b \<Longrightarrow> int (length (used b)) = size_b b"
  unfolding used_def wfBuf_def capacity_def by simp arith

lemma bufPush_ok:
  assumes w: "wfBuf b"
  shows "\<exists>b'. bufPush b d = Inr b' \<and> wfBuf b' \<and> used b' = used b @ d
           \<and> size_b b' = size_b b + int (length d)
           \<and> capacity b' =
                 (if capacity b < size_b b + int (length d)
                  then growCap (max (capacity b) 32) (size_b b + int (length d))
                  else capacity b)"
proof -
  let ?newLen = "size_b b + int (length d)"
  from w have s0: "0 \<le> size_b b" and sl: "size_b b \<le> int (length (data b))"
    by (simp_all add: wfBuf_def capacity_def)
  define data1 where "data1 =
    (if int (length (data b)) < ?newLen
     then data b @ drop (length (data b)) (alloc (growCap (max (int (length (data b))) 32) ?newLen))
     else data b)"
  have g: "?newLen \<le> growCap (max (int (length (data b))) 32) ?newLen
           \<and> max (int (length (data b))) 32 \<le> growCap (max (int (length (data b))) 32) ?newLen"
    by (rule growCap_ge) simp
  have len1: "int (length data1) =
      (if int (length (data b)) < ?newLen
       then growCap (max (int (length (data b))) 32) ?newLen else int (length (data b)))"
    using g unfolding data1_def alloc_def by simp arith
  have fits: "?newLen \<le> int (length data1)"
    unfolding len1 using g by simp
  have pre1: "take (nat (size_b b)) data1 = used b"
    using sl s0 by (simp add: data1_def used_def)
  have grow: "int (length (data b)) < ?newLen \<Longrightarrow>
      copy (data b) (alloc (growCap (max (int (length (data b))) 32) ?newLen)) 0
        = Inr data1"
  proof -
    assume lt: "int (length (data b)) < ?newLen"
    have gl: "length (data b) \<le> nat (growCap (max (int (length (data b))) 32) ?newLen)"
      using g by linarith
    show ?thesis
      using gl lt by (subst copy_at) (simp_all add: data1_def alloc_def)
  qed
  have c2: "copy d data1 (size_b b) =
      Inr (take (nat (size_b b)) data1 @ d @ drop (nat (size_b b) + length d) data1)"
    using fits s0 by (intro copy_at) simp_all
  let ?b' = "b\<lparr>data := used b @ d @ drop (nat (size_b b) + length d) data1,
                     size_b := ?newLen\<rparr>"
  have eq: "bufPush b d = Inr ?b'"
  proof (cases "int (length (data b)) < ?newLen")
    case True
    then show ?thesis
      unfolding bufPush_def Let_def by (simp add: grow c2 pre1)
  next
    case False
    then have same: "data1 = data b" by (simp add: data1_def)
    from False show ?thesis
      unfolding bufPush_def Let_def using c2 pre1 by (simp add: same)
  qed
  have cap': "capacity ?b' = int (length data1)"
    using fits s0 sl by (simp add: capacity_def used_def) 
  have "wfBuf ?b'" using fits s0 unfolding wfBuf_def cap' by simp
  moreover have "used ?b' = used b @ d"
    using s0 sl by (simp add: used_def nat_add_distrib)
  moreover have "capacity ?b' = (if capacity b < ?newLen
                  then growCap (max (capacity b) 32) ?newLen else capacity b)"
    unfolding cap' len1 by (simp add: capacity_def)
  ultimately show ?thesis using eq by simp
qed

lemma bufPop_contract:
  assumes w: "wfBuf b" and n: "0 \<le> n" "n \<le> size_b b"
  shows "bufPop b n = b\<lparr>data := take (nat (size_b b - n)) (drop (nat n) (data b))
                                 @ drop (nat (size_b b - n)) (data b),
                        size_b := size_b b - n\<rparr>"
    and "used (bufPop b n) = drop (nat n) (used b)"
    and "capacity (bufPop b n) = capacity b"
    and "wfBuf (bufPop b n)"
proof -
  from w have sl: "size_b b \<le> int (length (data b))" and s0: "0 \<le> size_b b"
    by (simp_all add: wfBuf_def capacity_def)
  show eq: "bufPop b n = b\<lparr>data := take (nat (size_b b - n)) (drop (nat n) (data b))
                                 @ drop (nat (size_b b - n)) (data b),
                        size_b := size_b b - n\<rparr>"
    unfolding bufPop_def using copyWithin_shift [OF n(1) n(2) sl] by simp
  have l: "nat (size_b b - n) \<le> length (data b) - nat n" using n sl by linarith
  show "used (bufPop b n) = drop (nat n) (used b)"
    unfolding eq used_def using n sl l by (simp add: drop_take nat_diff_distrib)
  show "capacity (bufPop b n) = capacity b"
    by (simp add: bufPop_def capacity_def copyWithin_length)
  then show "wfBuf (bufPop b n)"
    using w n by (simp add: wfBuf_def bufPop_def)
qed

lemma cutMessage_first:
  assumes w: "wfBuf b" and u: "used b = pre @ nl # post" and p: "nl \<notin> set pre"
  shows "cutMessage b = (Some (pre @ [nl]), bufPop b (int (length pre) + 1))"
    and "used (bufPop b (int (length pre) + 1)) = post"
    and "wfBuf (bufPop b (int (length pre) + 1))"
proof -
  from w have s0: "0 \<le> size_b b" by (simp add: wfBuf_def)
  have sz: "size_b b = int (length pre) + 1 + int (length post)"
    using used_length [OF w] u by simp
  have idx: "indexOf (subarray (data b) 0 (size_b b)) nl = int (length pre)"
    using subarray_used [OF s0] u p by (simp add: indexOf_append_hit)
  have "take (nat (int (length pre) + 1)) (used b) = pre @ [nl]"
    unfolding u by (simp add: nat_add_distrib)
  moreover have "take (nat (int (length pre) + 1)) (used b) = take (nat (int (length pre) + 1)) (data b)"
    unfolding used_def using sz by (simp add: min_def)
  ultimately have msg: "subarray (data b) 0 (int (length pre) + 1) = pre @ [nl]"
    by (simp add: subarray_from0)
  show "cutMessage b = (Some (pre @ [nl]), bufPop b (int (length pre) + 1))"
    unfolding cutMessage_def Let_def idx msg by simp
  have n: "0 \<le> int (length pre) + 1" "int (length pre) + 1 \<le> size_b b" using sz by simp_all
  show "used (bufPop b (int (length pre) + 1)) = post"
    using bufPop_contract(2) [OF w n] u by (simp add: nat_add_distrib)
  show "wfBuf (bufPop b (int (length pre) + 1))"
    by (rule bufPop_contract(4) [OF w n])
qed

lemma isMessage_split: "isMessage m \<Longrightarrow> \<exists>body. m = body @ [nl] \<and> nl \<notin> set body"
  unfolding isMessage_def by (metis append_butlast_last_id)

lemma isMessage_count: "isMessage m \<Longrightarrow> count_list m nl = 1"
  by (auto dest: isMessage_split)

lemma messages_count:
  "list_all isMessage msgs \<Longrightarrow> nl \<notin> set rest \<Longrightarrow>
   count_list (concat msgs @ rest) nl = length msgs"
  by (induction msgs) (simp_all add: isMessage_count)

lemma pushAll_ok:
  "wfBuf b \<Longrightarrow> \<exists>b'. pushAll b chunks = Inr b' \<and> wfBuf b' \<and> used b' = used b @ concat chunks"
proof (induction chunks arbitrary: b)
  case Nil
  then show ?case by simp
next
  case (Cons d ds)
  from bufPush_ok [OF Cons.prems, of d] obtain b1 where
    b1: "bufPush b d = Inr b1" "wfBuf b1" "used b1 = used b @ d" by blast
  from Cons.IH [OF b1(2)] obtain b' where
    "pushAll b1 ds = Inr b'" "wfBuf b'" "used b' = used b1 @ concat ds" by blast
  with b1 show ?case by simp
qed

lemma emptyBuf_wf: "wfBuf emptyBuf"
  by (simp add: wfBuf_def emptyBuf_def capacity_def alloc_def)

lemma emptyBuf_used: "used emptyBuf = []"
  by (simp add: emptyBuf_def alloc_def used_def)

lemma cutMessage_idle:
  assumes "0 \<le> size_b b" "nl \<notin> set (used b)"
  shows "cutMessage b = (None, b)"
  using assms cutMessage_none [of b] subarray_used [of b] by simp

lemma cutN_idle:
  "0 \<le> size_b b \<Longrightarrow> nl \<notin> set (used b) \<Longrightarrow> cutN n b = (replicate n None, b)"
  by (induction n) (simp_all add: cutMessage_idle)

lemma cutN_drain:
  "wfBuf b \<Longrightarrow> used b = concat msgs @ rest \<Longrightarrow> list_all isMessage msgs \<Longrightarrow>
   nl \<notin> set rest \<Longrightarrow>
   \<exists>b'. cutN (length msgs + 1) b = (map Some msgs @ [None], b') \<and> used b' = rest \<and> wfBuf b'"
proof (induction msgs arbitrary: b)
  case Nil
  then have "cutMessage b = (None, b)"
    by (intro cutMessage_idle) (simp_all add: wfBuf_def)
  with Nil show ?case by simp
next
  case (Cons m ms)
  from Cons.prems(3) obtain body where m: "m = body @ [nl]" "nl \<notin> set body"
    by (auto dest: isMessage_split)
  have u: "used b = body @ nl # (concat ms @ rest)" using Cons.prems(2) m by simp
  let ?b1 = "bufPop b (int (length body) + 1)"
  note c = cutMessage_first [OF Cons.prems(1) u m(2)]
  from Cons.IH [OF c(3) c(2)] Cons.prems(3,4) obtain b' where
    "cutN (length ms + 1) ?b1 = (map Some ms @ [None], b')" "used b' = rest" "wfBuf b'"
    by auto
  with c(1) m show ?case by simp
qed

lemma frames_exist:
  "\<exists>msgs rest. xs = concat msgs @ rest \<and> list_all isMessage msgs \<and> nl \<notin> set rest"
proof (induction xs rule: length_induct)
  case (1 xs)
  show ?case
  proof (cases "nl \<in> set xs")
    case False
    then have "xs = concat [] @ xs \<and> list_all isMessage [] \<and> nl \<notin> set xs" by simp
    then show ?thesis by blast
  next
    case True
    then obtain pre post where x: "xs = pre @ nl # post" "nl \<notin> set pre"
      by (auto dest: split_list_first)
    then have "length post < length xs" by simp
    with 1 obtain msgs rest where
      r: "post = concat msgs @ rest" "list_all isMessage msgs" "nl \<notin> set rest" by blast
    have "isMessage (pre @ [nl])" using x(2) by (simp add: isMessage_def)
    with r x have "xs = concat ((pre @ [nl]) # msgs) @ rest \<and> list_all isMessage ((pre @ [nl]) # msgs)
        \<and> nl \<notin> set rest" by simp
    then show ?thesis by blast
  qed
qed

section \<open>Framing\<close>

text \<open>
  Claim C1 (framing correctness). Take a buffer with \<open>0 \<le> size \<le> capacity\<close> (the buffer
  a handler starts with is one, with nothing in it), any chunks pushed into it one after
  the other, and any way of writing the bytes then buffered as messages \<open>msgs\<close> (each
  ends with the delimiter and has no other) followed by a delimiter-free \<open>rest\<close>. Every
  push succeeds and the used region is the old one followed by the chunks; the number of
  messages is the number \<open>k\<close> of delimiters; \<open>k + 1\<close> successive cuts return the \<open>k\<close>
  messages, in order, and then \<^verbatim>\<open>null\<close>, leaving \<open>rest\<close> in the buffer. By
  \<open>frames_exist\<close> every byte sequence can be written in that way.
\<close>

theorem framing_correctness:
  assumes "wfBuf b0" and "used b0 @ concat chunks = concat msgs @ rest"
    and "list_all isMessage msgs" and "nl \<notin> set rest"
  shows "\<exists>b b'. pushAll b0 chunks = Inr b \<and> used b = used b0 @ concat chunks
           \<and> cutN (length msgs + 1) b = (map Some msgs @ [None], b')
           \<and> used b' = rest
           \<and> length msgs = count_list (used b0 @ concat chunks) nl"
proof -
  from pushAll_ok [OF assms(1), of chunks] obtain b where
    b: "pushAll b0 chunks = Inr b" "wfBuf b" "used b = used b0 @ concat chunks"
    by blast
  have u: "used b = concat msgs @ rest" using b(3) assms(2) by simp
  from cutN_drain [OF b(2) u assms(3,4)] obtain b' where
    "cutN (length msgs + 1) b = (map Some msgs @ [None], b')" "used b' = rest"
    by blast
  moreover have "length msgs = count_list (used b0 @ concat chunks) nl"
    using messages_count [OF assms(3,4)] assms(2) by simp
  ultimately show ?thesis using b by blast
qed

theorem framing_correctness_witness:
  "wfBuf emptyBuf
   \<and> list_all isMessage [''abc'' @ [nl], ''x'' @ [nl]]
   \<and> nl \<notin> set ''yz''
   \<and> (\<exists>b b'. pushAll emptyBuf [''ab'', ''c'' @ [nl] @ ''x'' @ [nl] @ ''yz''] = Inr b
          \<and> used b = used emptyBuf @ concat [''ab'', ''c'' @ [nl] @ ''x'' @ [nl] @ ''yz'']
          \<and> cutN (length [''abc'' @ [nl], ''x'' @ [nl]] + 1) b
                = (map Some [''abc'' @ [nl], ''x'' @ [nl]] @ [None], b')
          \<and> used b' = ''yz''
          \<and> length [''abc'' @ [nl], ''x'' @ [nl]]
                = count_list (used emptyBuf @ concat [''ab'', ''c'' @ [nl] @ ''x'' @ [nl] @ ''yz'']) nl)"
proof -
  have m: "list_all isMessage [''abc'' @ [nl], ''x'' @ [nl]]"
    by (simp add: isMessage_def nl_def)
  have u: "used emptyBuf @ concat [''ab'', ''c'' @ [nl] @ ''x'' @ [nl] @ ''yz'']
             = concat [''abc'' @ [nl], ''x'' @ [nl]] @ ''yz''"
    by (simp add: emptyBuf_used)
  have r: "nl \<notin> set ''yz''" by (simp add: nl_def)
  from framing_correctness [OF emptyBuf_wf u m r] m r emptyBuf_wf show ?thesis
    by blast
qed

text \<open>
  Claim C2 (the contracts of \<^verbatim>\<open>cutMessage\<close> and \<^verbatim>\<open>bufPop\<close>). For a buffer with
  \<open>0 \<le> size \<le> capacity\<close>: without a delimiter in the used region the cut returns
  \<^verbatim>\<open>null\<close> and the buffer is unchanged; with one, \<open>idx\<close> is the index of the first
  delimiter, the message is a copy of the bytes \<open>[0, idx + 1)\<close>, and the buffer after the
  call is exactly \<open>bufPop b (idx + 1)\<close>. Under \<open>0 \<le> n \<le> size\<close>, \<open>bufPop b n\<close> moves the
  \<open>size - n\<close> remaining bytes to offset \<open>0\<close>, lowers \<open>size\<close> by \<open>n\<close>, drops the first
  \<open>n\<close> bytes of the used region and keeps the capacity.
\<close>

theorem cutMessage_contract:
  assumes w: "wfBuf b"
  shows "(nl \<notin> set (used b) \<longrightarrow> cutMessage b = (None, b))
       \<and> (nl \<in> set (used b) \<longrightarrow>
            (let idx = indexOf (used b) nl; n = idx + 1 in
               0 \<le> idx \<and> n \<le> size_b b
               \<and> used b ! nat idx = nl \<and> nl \<notin> set (take (nat idx) (used b))
               \<and> cutMessage b = (Some (take (nat n) (data b)), bufPop b n)))
       \<and> (\<forall>n. 0 \<le> n \<and> n \<le> size_b b \<longrightarrow>
            bufPop b n = b\<lparr>data := take (nat (size_b b - n)) (drop (nat n) (data b))
                                     @ drop (nat (size_b b - n)) (data b),
                            size_b := size_b b - n\<rparr>
            \<and> used (bufPop b n) = drop (nat n) (used b)
            \<and> capacity (bufPop b n) = capacity b)"
proof (intro conjI impI allI)
  assume "nl \<notin> set (used b)"
  then show "cutMessage b = (None, b)"
    using w by (intro cutMessage_idle) (simp_all add: wfBuf_def)
next
  assume "nl \<in> set (used b)"
  then obtain pre post where u: "used b = pre @ nl # post" and p: "nl \<notin> set pre"
    by (auto dest: split_list_first)
  have idx: "indexOf (used b) nl = int (length pre)"
    unfolding u using p by (rule indexOf_append_hit)
  have sz: "size_b b = int (length pre) + 1 + int (length post)"
    using used_length [OF w] u by simp
  have "take (nat (int (length pre) + 1)) (used b) = pre @ [nl]"
    unfolding u by (simp add: nat_add_distrib)
  moreover have "take (nat (int (length pre) + 1)) (used b) = take (nat (int (length pre) + 1)) (data b)"
    unfolding used_def using sz by (simp add: min_def)
  ultimately have tk: "take (nat (int (length pre) + 1)) (data b) = pre @ [nl]" by simp
  show "let idx = indexOf (used b) nl; n = idx + 1 in
               0 \<le> idx \<and> n \<le> size_b b
               \<and> used b ! nat idx = nl \<and> nl \<notin> set (take (nat idx) (used b))
               \<and> cutMessage b = (Some (take (nat n) (data b)), bufPop b n)"
    unfolding Let_def idx tk using cutMessage_first(1) [OF w u p] sz p
    by (simp add: u)
next
  fix n assume "0 \<le> n \<and> n \<le> size_b b"
  then have n: "0 \<le> n" "n \<le> size_b b" by simp_all
  show "bufPop b n = b\<lparr>data := take (nat (size_b b - n)) (drop (nat n) (data b))
                                     @ drop (nat (size_b b - n)) (data b),
                            size_b := size_b b - n\<rparr>"
    by (rule bufPop_contract(1) [OF w n])
  show "used (bufPop b n) = drop (nat n) (used b)"
    by (rule bufPop_contract(2) [OF w n])
  show "capacity (bufPop b n) = capacity b"
    by (rule bufPop_contract(3) [OF w n])
qed

theorem cutMessage_contract_witness:
  "wfBuf \<lparr>data = ''hi'' @ [nl] @ ''yo'' @ [CHR 0x00, CHR 0x00], size_b = 5\<rparr>
   \<and> nl \<in> set (used \<lparr>data = ''hi'' @ [nl] @ ''yo'' @ [CHR 0x00, CHR 0x00], size_b = 5\<rparr>)
   \<and> cutMessage \<lparr>data = ''hi'' @ [nl] @ ''yo'' @ [CHR 0x00, CHR 0x00], size_b = 5\<rparr>
       = (Some (''hi'' @ [nl]), \<lparr>data = ''yo'' @ [nl] @ ''yo'' @ [CHR 0x00, CHR 0x00], size_b = 2\<rparr>)"
proof -
  let ?b = "\<lparr>data = ''hi'' @ [nl] @ ''yo'' @ [CHR 0x00, CHR 0x00], size_b = 5\<rparr>"
  have w: "wfBuf ?b" by (simp add: wfBuf_def capacity_def)
  have u: "used ?b = ''hi'' @ [nl] @ ''yo''" by (simp add: used_def)
  have m: "nl \<in> set (used ?b)" unfolding u by simp
  have i: "indexOf (used ?b) nl = 2" unfolding u by (simp add: nl_def)
  from cutMessage_contract [OF w] m
  have c: "cutMessage ?b = (Some (take (nat (2 + 1)) (data ?b)), bufPop ?b (2 + 1))"
    and p: "bufPop ?b (2 + 1) = ?b\<lparr>data := take (nat (size_b ?b - (2 + 1))) (drop (nat (2 + 1)) (data ?b))
                                     @ drop (nat (size_b ?b - (2 + 1))) (data ?b),
                            size_b := size_b ?b - (2 + 1)\<rparr>"
    unfolding Let_def i by simp_all
  show ?thesis using w m unfolding c p by simp
qed

text \<open>
  Claim C8 (idempotent drain). On a buffer whose used region has no delimiter,
  \<^verbatim>\<open>cutMessage\<close> returns \<^verbatim>\<open>null\<close> and leaves the buffer as it is, however many times it
  is called.
\<close>

theorem idempotent_drain:
  assumes "0 \<le> size_b b" and "nl \<notin> set (used b)"
  shows "cutMessage b = (None, b) \<and> cutN n b = (replicate n None, b)"
  using assms by (simp add: cutMessage_idle cutN_idle)
theorem idempotent_drain_witness:
  "0 \<le> size_b \<lparr>data = ''abc'' @ [nl, CHR 0x00], size_b = 3\<rparr>
   \<and> nl \<notin> set (used \<lparr>data = ''abc'' @ [nl, CHR 0x00], size_b = 3\<rparr>)
   \<and> cutN 3 \<lparr>data = ''abc'' @ [nl, CHR 0x00], size_b = 3\<rparr>
       = ([None, None, None], \<lparr>data = ''abc'' @ [nl, CHR 0x00], size_b = 3\<rparr>)"
proof -
  let ?b = "\<lparr>data = ''abc'' @ [nl, CHR 0x00], size_b = 3\<rparr>"
  have s: "0 \<le> size_b ?b" by simp
  have u: "nl \<notin> set (used ?b)" by (simp add: used_def nl_def)
  from idempotent_drain [OF s u, of 3] s u show ?thesis
    by (simp add: numeral_3_eq_3)
qed

section \<open>Capacity\<close>

lemma doublingRule_widen:
  "doublingRule cap p \<Longrightarrow> q \<le> cap \<Longrightarrow> doublingRule cap (max p q)"
  unfolding doublingRule_def by auto

lemma pow2_lt_imp: "(32::int) * 2 ^ a < 2 * (32 * 2 ^ j) \<Longrightarrow> (32::int) * 2 ^ a \<le> 32 * 2 ^ j"
proof -
  assume "(32::int) * 2 ^ a < 2 * (32 * 2 ^ j)"
  then have "(2::int) ^ a < 2 ^ Suc j" by simp
  then have "a < Suc j" by (simp only: power_strict_increasing_iff [of "2::int"]) 
  then have "a \<le> j" by simp
  then have "(2::int) ^ a \<le> 2 ^ j" by (simp only: power_increasing_iff [of "2::int"])
  then show ?thesis by simp
qed

lemma growCap_doubling:
  assumes c: "c = 32 * 2 ^ k0" and n: "c < n \<or> k0 = 0"
  shows "doublingRule (growCap c n) n"
proof -
  have c0: "0 < c" using c by simp
  from growCap_form [OF c0, of n] obtain k where k: "growCap c n = c * 2 ^ k" by blast
  then have form: "growCap c n = 32 * 2 ^ (k0 + k)" using c by (simp add: power_add)
  have ge: "n \<le> growCap c n" using growCap_ge [OF c0] by simp
  have least: "growCap c n \<le> 32 * 2 ^ j" if j: "n \<le> 32 * 2 ^ j" for j :: nat
  proof (cases "c < n")
    case True
    from growCap_tight [OF c0 True] j have "growCap c n < 2 * (32 * 2 ^ j)" by simp
    then show ?thesis unfolding form by (rule pow2_lt_imp)
  next
    case False
    with n have "k0 = 0" by simp
    moreover from False c0 have "growCap c n = c" by (simp add: growCap_unfold)
    ultimately have "growCap c n = 32" using c by simp
    moreover have "(1::int) \<le> 2 ^ j" by simp
    ultimately show ?thesis by simp
  qed
  show ?thesis unfolding doublingRule_def using form ge least by blast
qed

lemma capRule_push:
  assumes "capRule b p"
  shows "\<exists>b'. bufPush b d = Inr b' \<and> capRule b' (max p (size_b b'))
           \<and> capacity b \<le> capacity b'
           \<and> (capacity b < capacity b' \<longrightarrow> capacity b < size_b b + int (length d))"
proof -
  from assms have w: "wfBuf b" and sp: "size_b b \<le> p"
    and r: "if p = 0 then capacity b = 0 else doublingRule (capacity b) p"
    by (simp_all add: capRule_def)
  from w have s0: "0 \<le> size_b b" and sc: "size_b b \<le> capacity b" by (simp_all add: wfBuf_def)
  let ?n = "size_b b + int (length d)"
  from bufPush_ok [OF w, of d] obtain b' where
    b': "bufPush b d = Inr b'" "wfBuf b'" "size_b b' = ?n"
    "capacity b' = (if capacity b < ?n then growCap (max (capacity b) 32) ?n else capacity b)"
    by blast
  have pc: "p \<le> capacity b" using r by (auto simp: doublingRule_def split: if_splits)
  have p0: "0 \<le> p" using s0 sp by simp
  have rule': "if max p ?n = 0 then capacity b' = 0 else doublingRule (capacity b') (max p ?n)"
  proof (cases "capacity b < ?n")
    case False
    then have same: "capacity b' = capacity b" using b'(4) by simp
    show ?thesis
    proof (cases "p = 0")
      case True
      with r have "capacity b = 0" by simp
      with False s0 have "?n = 0" by simp
      with True same \<open>capacity b = 0\<close> show ?thesis by simp
    next
      case nz: False
      with r have "doublingRule (capacity b) p" by simp
      from doublingRule_widen [OF this, of ?n] False nz p0 show ?thesis
        unfolding same by (simp add: max_def)
    qed
  next
    case True
    then have mx: "max p ?n = ?n" using pc by simp
    have pos: "?n \<noteq> 0" using True s0 sc by simp
    have "doublingRule (growCap (max (capacity b) 32) ?n) ?n"
    proof (cases "p = 0")
      case True
      with r have "capacity b = 0" by simp
      then have "max (capacity b) 32 = 32 * 2 ^ 0" by simp
      then show ?thesis by (rule growCap_doubling) simp
    next
      case False
      with r obtain k where k: "capacity b = 32 * 2 ^ k" by (auto simp: doublingRule_def)
      then have "max (capacity b) 32 = 32 * 2 ^ k" by simp
      moreover have "max (capacity b) 32 < ?n \<or> k = 0" using True k by simp
      ultimately show ?thesis by (rule growCap_doubling)
    qed
    with True b'(4) pos show ?thesis unfolding mx by simp
  qed
  have mono: "capacity b \<le> capacity b'"
    using b'(4) growCap_ge [of "max (capacity b) 32" ?n] by (simp split: if_splits)
  have "capRule b' (max p (size_b b'))"
    unfolding capRule_def using b'(2,3) rule' by simp
  moreover have "capacity b < capacity b' \<longrightarrow> capacity b < ?n"
    using b'(4) by (simp split: if_splits)
  ultimately show ?thesis using b'(1) mono by blast
qed

lemma capRule_pop:
  assumes "capRule b p" and n: "0 \<le> n" "n \<le> size_b b"
  shows "capRule (bufPop b n) (max p (size_b (bufPop b n)))" and "capacity (bufPop b n) = capacity b"
proof -
  from assms have w: "wfBuf b" and sp: "size_b b \<le> p" by (simp_all add: capRule_def)
  show c: "capacity (bufPop b n) = capacity b" by (rule bufPop_contract(3) [OF w n])
  have s: "size_b (bufPop b n) = size_b b - n" by (simp add: bufPop_def)
  have m: "max p (size_b (bufPop b n)) = p" using s sp n by simp
  show "capRule (bufPop b n) (max p (size_b (bufPop b n)))"
    unfolding m using assms(1) bufPop_contract(4) [OF w n] s n by (simp add: capRule_def c)
qed

lemma capRule_step:
  assumes "capRule b p" and "legalOp x b"
  shows "\<exists>b'. stepOp x b = Inr b' \<and> capRule b' (max p (size_b b'))
           \<and> capacity b \<le> capacity b'
           \<and> (capacity b < capacity b' \<longrightarrow>
                 (\<exists>d. x = Push d \<and> capacity b < size_b b + int (length d)))"
proof (cases x)
  case (Push d)
  with capRule_push [OF assms(1), of d] show ?thesis by auto
next
  case (Pop n)
  with assms(2) have n: "0 \<le> n" "n \<le> size_b b" by simp_all
  from capRule_pop [OF assms(1) n] Pop show ?thesis by simp
qed

lemma capRule_run:
  "capRule b p \<Longrightarrow> legalOps ops b \<Longrightarrow>
   \<exists>b'. runOps ops b = Inr b' \<and> capRule b' (max p (peakUsed ops b)) \<and> capacity b \<le> capacity b'"
proof (induction ops arbitrary: b p)
  case Nil
  then have "max p (size_b b) = p" by (simp add: capRule_def)
  with Nil show ?case by simp
next
  case (Cons x xs)
  from Cons.prems(2) have lx: "legalOp x b" by simp
  from capRule_step [OF Cons.prems(1) lx] obtain b1 where
    b1: "stepOp x b = Inr b1" "capRule b1 (max p (size_b b1))" "capacity b \<le> capacity b1"
    by blast
  from Cons.prems(2) b1(1) have "legalOps xs b1" by simp
  from Cons.IH [OF b1(2) this] obtain b' where
    b': "runOps xs b1 = Inr b'" "capRule b' (max (max p (size_b b1)) (peakUsed xs b1))"
      "capacity b1 \<le> capacity b'" by blast
  have "size_b b1 \<le> peakUsed xs b1" by (cases xs) simp_all
  moreover have "size_b b \<le> p" using Cons.prems(1) by (simp add: capRule_def)
  ultimately have "max (max p (size_b b1)) (peakUsed xs b1) = max p (peakUsed (x # xs) b)"
    using b1(1) by simp
  with b' b1 show ?case by simp
qed

text \<open>
  Claim C6, as stated, fails: after the empty chunk is pushed into the starting buffer
  (what \<^verbatim>\<open>serveClient\<close> does when the stream ends before any data) the peak is \<open>0\<close> and
  the capacity is \<open>0\<close>, which is not of the form \<open>32 * 2 ^ k\<close>.
\<close>

theorem growth_rule_counterexample:
  "legalOps [Push []] emptyBuf \<and> runOps [Push []] emptyBuf = Inr emptyBuf
     \<and> peakUsed [Push []] emptyBuf = 0 \<and> capacity emptyBuf = 0
     \<and> \<not> doublingRule (capacity emptyBuf) (peakUsed [Push []] emptyBuf)"
proof -
  have p: "bufPush emptyBuf [] = Inr emptyBuf"
    by (simp add: bufPush_def emptyBuf_def alloc_def copy_def)
  have c: "capacity emptyBuf = 0" by (simp add: capacity_def emptyBuf_def alloc_def)
  have s: "size_b emptyBuf = 0" by (simp add: emptyBuf_def)
  have "\<not> doublingRule 0 0" by (simp add: doublingRule_def)
  with p c s show ?thesis by simp
qed

text \<open>
  Claim C6, amended (buffer invariant and growth rule). After any sequence of pushes and
  pops from the starting buffer, in which every pop meets its precondition
  \<open>0 \<le> n \<le> size\<close>: every operation succeeds, \<open>0 \<le> size \<le> capacity\<close>, and the capacity
  is \<open>0\<close> while the peak of \<open>size\<close> is \<open>0\<close> and otherwise the smallest value of the form
  \<open>32 * 2 ^ k\<close> that is at least the peak. A further operation never lowers the
  capacity, and raises it only if it is a push of a chunk that does not fit.
\<close>

theorem buffer_invariant_growth:
  assumes "legalOps ops emptyBuf"
  shows "\<exists>b. runOps ops emptyBuf = Inr b
           \<and> 0 \<le> size_b b \<and> size_b b \<le> capacity b
           \<and> (if peakUsed ops emptyBuf = 0 then capacity b = 0
               else doublingRule (capacity b) (peakUsed ops emptyBuf))
           \<and> (\<forall>x. legalOp x b \<longrightarrow>
                 (\<exists>b'. stepOp x b = Inr b' \<and> capacity b \<le> capacity b'
                    \<and> (capacity b < capacity b' \<longrightarrow>
                          (\<exists>d. x = Push d \<and> capacity b < size_b b + int (length d)))))"
proof -
  have e: "capRule emptyBuf 0"
    by (simp add: capRule_def emptyBuf_wf) (simp add: emptyBuf_def capacity_def alloc_def)
  from capRule_run [OF e assms] obtain b where
    b: "runOps ops emptyBuf = Inr b" "capRule b (max 0 (peakUsed ops emptyBuf))" by blast
  have "0 \<le> peakUsed ops emptyBuf" by (cases ops) (simp_all add: emptyBuf_def)
  then have m: "max 0 (peakUsed ops emptyBuf) = peakUsed ops emptyBuf" by simp
  note r = b(2) [unfolded m]
  have step: "\<forall>x. legalOp x b \<longrightarrow>
                 (\<exists>b'. stepOp x b = Inr b' \<and> capacity b \<le> capacity b'
                    \<and> (capacity b < capacity b' \<longrightarrow>
                          (\<exists>d. x = Push d \<and> capacity b < size_b b + int (length d))))"
    using capRule_step [OF r] by blast
  from r have "0 \<le> size_b b" "size_b b \<le> capacity b"
    "if peakUsed ops emptyBuf = 0 then capacity b = 0
               else doublingRule (capacity b) (peakUsed ops emptyBuf)"
    by (simp_all add: capRule_def wfBuf_def)
  with b(1) step show ?thesis by blast
qed
theorem buffer_invariant_growth_witness:
  "legalOps [Push ''abcdef'', Pop 4, Push (replicate 40 CHR ''z'')] emptyBuf
   \<and> (\<exists>b. runOps [Push ''abcdef'', Pop 4, Push (replicate 40 CHR ''z'')] emptyBuf = Inr b
        \<and> size_b b = 42 \<and> capacity b = 64
        \<and> peakUsed [Push ''abcdef'', Pop 4, Push (replicate 40 CHR ''z'')] emptyBuf = 42
        \<and> doublingRule (capacity b) 42)"
proof -
  let ?ops = "[Push ''abcdef'', Pop 4, Push (replicate 40 CHR ''z'')]"
  have l: "legalOps ?ops emptyBuf" by code_simp
  have r: "runOps ?ops emptyBuf = Inr \<lparr>data = ''ef'' @ replicate 40 CHR ''z'' @ replicate 22 (CHR 0x00), size_b = 42\<rparr>"
    by code_simp
  have k: "peakUsed ?ops emptyBuf = 42" by code_simp
  from buffer_invariant_growth [OF l] r k l show ?thesis
    by (auto simp: capacity_def)
qed

section \<open>The connection adapter: error latch and end of stream\<close>

lemma connStep_err:
  assumes "err c = Some e"
  shows "\<exists>e'. err (connStep x c) = Some e' \<and> (\<not> isErrorEvent x \<longrightarrow> e' = e)"
proof (cases x)
  case CallRead
  with assms show ?thesis by (simp add: soRead_def)
next
  case (CallWrite d)
  with assms show ?thesis by (simp add: soWrite_def)
next
  case (Event ev)
  with assms show ?thesis
    by (cases ev) (simp_all add: onData_def onEnd_def onError_def Let_def)
qed

lemma fold_connStep_err:
  "err c = Some e \<Longrightarrow>
   \<exists>e'. err (fold connStep ops c) = Some e' \<and> (list_all (\<lambda>x. \<not> isErrorEvent x) ops \<longrightarrow> e' = e)"
proof (induction ops arbitrary: c e)
  case Nil
  then show ?case by simp
next
  case (Cons x xs)
  from connStep_err [OF Cons.prems, of x] obtain e1 where
    e1: "err (connStep x c) = Some e1" "\<not> isErrorEvent x \<longrightarrow> e1 = e" by blast
  from Cons.IH [OF e1(1)] obtain e' where
    "err (fold connStep xs (connStep x c)) = Some e'"
    "list_all (\<lambda>x. \<not> isErrorEvent x) xs \<longrightarrow> e' = e1" by blast
  with e1(2) show ?case by auto
qed

text \<open>
  Claim C4 (error latch). Once \<open>err\<close> holds an error, then after any calls and events
  the connection still holds one, and \<^verbatim>\<open>soRead\<close> and \<^verbatim>\<open>soWrite\<close> both reject with it
  before they return, leaving the connection as it was: no reader is registered and no
  call is made on the socket. The error is the one first recorded unless a later
  \<^verbatim>\<open>error\<close> event has recorded another. An \<^verbatim>\<open>error\<close> event records its error and
  rejects the pending read, if there is one, with it.
\<close>

theorem error_latch:
  assumes "err c = Some e"
  shows "(\<exists>e'. err (fold connStep ops c) = Some e'
           \<and> soRead (fold connStep ops c) = (Some (Reject e'), fold connStep ops c)
           \<and> soWrite (fold connStep ops c) d = (Some (Reject e'), fold connStep ops c)
           \<and> (list_all (\<lambda>x. \<not> isErrorEvent x) ops \<longrightarrow> e' = e))
       \<and> err (snd (onError e c0)) = Some e
       \<and> fst (onError e c0) = (if reader c0 then Some (Reject e) else None)"
proof -
  have ev: "err (snd (onError e c0)) = Some e
       \<and> fst (onError e c0) = (if reader c0 then Some (Reject e) else None)"
    by (simp add: onError_def Let_def)
  from fold_connStep_err [OF assms, of ops] obtain e' where
    e': "err (fold connStep ops c) = Some e'"
      "list_all (\<lambda>x. \<not> isErrorEvent x) ops \<longrightarrow> e' = e" by blast
  from e'(1) have "soRead (fold connStep ops c) = (Some (Reject e'), fold connStep ops c)"
    by (simp add: soRead_def)
  moreover from e'(1) have "soWrite (fold connStep ops c) d = (Some (Reject e'), fold connStep ops c)"
    by (simp add: soWrite_def)
  ultimately show ?thesis using e' ev by blast
qed

theorem error_latch_witness:
  "err \<lparr>socket = [Resume], err = Some (TransportError ''ECONNRESET''), ended = False, reader = False\<rparr>
     = Some (TransportError ''ECONNRESET'')
   \<and> soRead (fold connStep [CallRead, Event End, CallWrite ''hi'', Event (Data ''zz'')]
        \<lparr>socket = [Resume], err = Some (TransportError ''ECONNRESET''), ended = False, reader = False\<rparr>)
     = (Some (Reject (TransportError ''ECONNRESET'')),
        \<lparr>socket = [Resume, Pause], err = Some (TransportError ''ECONNRESET''), ended = True, reader = False\<rparr>)
   \<and> soWrite (fold connStep [CallRead, Event End, CallWrite ''hi'', Event (Data ''zz'')]
        \<lparr>socket = [Resume], err = Some (TransportError ''ECONNRESET''), ended = False, reader = False\<rparr>) ''yo''
     = (Some (Reject (TransportError ''ECONNRESET'')),
        \<lparr>socket = [Resume, Pause], err = Some (TransportError ''ECONNRESET''), ended = True, reader = False\<rparr>)"
proof -
  let ?c = "\<lparr>socket = [Resume], err = Some (TransportError ''ECONNRESET''), ended = False, reader = False\<rparr>"
  let ?ops = "[CallRead, Event End, CallWrite ''hi'', Event (Data ''zz'')]"
  have e: "err ?c = Some (TransportError ''ECONNRESET'')" by simp
  have n: "list_all (\<lambda>x. \<not> isErrorEvent x) ?ops" by simp
  have f: "fold connStep ?ops ?c
      = \<lparr>socket = [Resume, Pause], err = Some (TransportError ''ECONNRESET''), ended = True, reader = False\<rparr>"
    by (simp add: soRead_def soWrite_def onEnd_def onData_def Let_def)
  from error_latch [OF e, of ?ops "''yo''" ?c] n show ?thesis
    unfolding f by auto
qed

lemma connStep_ended: "ended c \<Longrightarrow> ended (connStep x c)"
proof (cases x)
  case CallRead
  assume "ended c"
  with CallRead show ?thesis by (simp add: soRead_def split: option.splits)
next
  case (CallWrite d)
  assume "ended c"
  with CallWrite show ?thesis by (simp add: soWrite_def split: option.splits)
next
  case (Event ev)
  assume "ended c"
  with Event show ?thesis
    by (cases ev) (simp_all add: onData_def onEnd_def onError_def Let_def)
qed

lemma connStep_no_err:
  "err c = None \<Longrightarrow> \<not> isErrorEvent x \<Longrightarrow> err (connStep x c) = None"
proof (cases x)
  case CallRead
  assume "err c = None"
  with CallRead show ?thesis by (simp add: soRead_def)
next
  case (CallWrite d)
  assume "err c = None"
  with CallWrite show ?thesis by (simp add: soWrite_def)
next
  case (Event ev)
  assume "err c = None" "\<not> isErrorEvent x"
  with Event show ?thesis
    by (cases ev) (simp_all add: onData_def onEnd_def Let_def)
qed

lemma fold_connStep_ended: "ended c \<Longrightarrow> ended (fold connStep ops c)"
  by (induction ops arbitrary: c) (simp_all add: connStep_ended)

lemma fold_connStep_no_err:
  "err c = None \<Longrightarrow> list_all (\<lambda>x. \<not> isErrorEvent x) ops \<Longrightarrow> err (fold connStep ops c) = None"
  by (induction ops arbitrary: c) (simp_all add: connStep_no_err)

text \<open>
  Claim C5 (end-of-stream contract). Once \<open>ended\<close> is set it stays set through any calls
  and events, and \<^verbatim>\<open>soRead\<close> settles before it returns, leaving the connection as it
  was: it rejects with the recorded error when there is one, and resolves with the empty
  buffer otherwise, which is the case when no error was recorded and none has occurred
  since. An \<^verbatim>\<open>end\<close> event sets \<open>ended\<close> and resolves the pending read, if there is one,
  with the empty buffer.
\<close>

theorem eof_contract:
  assumes "ended c"
  shows "ended (fold connStep ops c)
       \<and> (case err (fold connStep ops c) of
             None \<Rightarrow> soRead (fold connStep ops c) = (Some (Resolve []), fold connStep ops c)
           | Some e \<Rightarrow> soRead (fold connStep ops c) = (Some (Reject e), fold connStep ops c))
       \<and> (err c = None \<and> list_all (\<lambda>x. \<not> isErrorEvent x) ops
             \<longrightarrow> soRead (fold connStep ops c) = (Some (Resolve []), fold connStep ops c))
       \<and> ended (snd (onEnd c0))
       \<and> fst (onEnd c0) = (if reader c0 then Some (Resolve []) else None)"
proof -
  have ev: "ended (snd (onEnd c0))
       \<and> fst (onEnd c0) = (if reader c0 then Some (Resolve []) else None)"
    by (simp add: onEnd_def Let_def)
  have en: "ended (fold connStep ops c)" using assms by (rule fold_connStep_ended)
  then have r: "case err (fold connStep ops c) of
             None \<Rightarrow> soRead (fold connStep ops c) = (Some (Resolve []), fold connStep ops c)
           | Some e \<Rightarrow> soRead (fold connStep ops c) = (Some (Reject e), fold connStep ops c)"
    by (simp add: soRead_def split: option.splits)
  have "soRead (fold connStep ops c) = (Some (Resolve []), fold connStep ops c)"
    if "err c = None" "list_all (\<lambda>x. \<not> isErrorEvent x) ops"
    using fold_connStep_no_err [OF that] en by (simp add: soRead_def)
  with en r ev show ?thesis by blast
qed

theorem eof_contract_witness:
  "ended \<lparr>socket = [Resume], err = None, ended = True, reader = False\<rparr>
   \<and> soRead (fold connStep [CallRead, CallWrite ''hi'', CallRead]
        \<lparr>socket = [Resume], err = None, ended = True, reader = False\<rparr>)
     = (Some (Resolve []),
        \<lparr>socket = [Resume, Write ''hi''], err = None, ended = True, reader = False\<rparr>)"
proof -
  let ?c = "\<lparr>socket = [Resume], err = None, ended = True, reader = False\<rparr>"
  let ?ops = "[CallRead, CallWrite ''hi'', CallRead]"
  have e: "ended ?c" by simp
  have n: "err ?c = None \<and> list_all (\<lambda>x. \<not> isErrorEvent x) ?ops" by simp
  have f: "fold connStep ?ops ?c
      = \<lparr>socket = [Resume, Write ''hi''], err = None, ended = True, reader = False\<rparr>"
    by (simp add: soRead_def soWrite_def)
  from eof_contract [OF e, of ?ops ?c] n show ?thesis
    unfolding f by simp
qed

text \<open>
  Claim C10 (\<^verbatim>\<open>soWrite\<close> does not look at \<open>ended\<close>). On a connection whose stream has
  ended and that holds no error, \<^verbatim>\<open>soWrite\<close> does not settle its promise: it passes the
  data to \<^verbatim>\<open>socket.write\<close>, and the promise is resolved or rejected by the completion
  callback, according to the error the transport gives it.
\<close>

theorem write_ignores_eof:
  assumes "ended c" and "err c = None"
  shows "soWrite c d = (None, c\<lparr>socket := socket c @ [Write d]\<rparr>)
       \<and> writeCallback None = Resolve ()
       \<and> writeCallback (Some e) = Reject e"
  using assms by (simp add: soWrite_def writeCallback_def)
theorem write_ignores_eof_witness:
  "ended \<lparr>socket = [Resume], err = None, ended = True, reader = False\<rparr>
   \<and> err \<lparr>socket = [Resume], err = None, ended = True, reader = False\<rparr> = None
   \<and> soWrite \<lparr>socket = [Resume], err = None, ended = True, reader = False\<rparr> ''hi''
     = (None, \<lparr>socket = [Resume, Write ''hi''], err = None, ended = True, reader = False\<rparr>)"
  using write_ignores_eof [of "\<lparr>socket = [Resume], err = None, ended = True, reader = False\<rparr>" "''hi''"]
  by simp

section \<open>The connection handler: replies\<close>

lemma serveLoop_idle:
  assumes "0 \<le> size_b b" "nl \<notin> set (used b)" "err c = None" "\<not> ended c"
  shows "serveLoop c b =
           \<lparr>conn = c\<lparr>reader := True, socket := socket c @ [Resume]\<rparr>, buf = b, pc = AwaitRead\<rparr>"
  using assms by (simp add: serveLoop.simps cutMessage_idle soRead_def)

lemma serveLoop_echo:
  assumes w: "wfBuf b" and u: "used b = m @ post" and m: "isMessage m" and q: "m \<noteq> quitMsg"
    and e: "err c = None"
  shows "serveLoop c b =
           \<lparr>conn = c\<lparr>socket := socket c @ [Write (echoPrefix @ m)]\<rparr>,
            buf = bufPop b (int (length m)), pc = AwaitWrite EchoWrite\<rparr>"
    and "used (bufPop b (int (length m))) = post"
    and "wfBuf (bufPop b (int (length m)))"
proof -
  from m obtain body where b: "m = body @ [nl]" "nl \<notin> set body"
    by (auto dest: isMessage_split)
  have u': "used b = body @ nl # post" using u b by simp
  have l: "int (length m) = int (length body) + 1" using b by simp
  note c = cutMessage_first [OF w u' b(2), folded l]
  show "serveLoop c b =
           \<lparr>conn = c\<lparr>socket := socket c @ [Write (echoPrefix @ m)]\<rparr>,
            buf = bufPop b (int (length m)), pc = AwaitWrite EchoWrite\<rparr>"
    using c(1) q e b(1) by (simp add: serveLoop.simps soWrite_def)
  show "used (bufPop b (int (length m))) = post" by (rule c(2))
  show "wfBuf (bufPop b (int (length m)))" by (rule c(3))
qed

lemma deliver_ack_echo:
  "deliver (WriteDone None) \<lparr>conn = c, buf = b, pc = AwaitWrite EchoWrite\<rparr> = serveLoop c b"
  by (simp add: writeCallback_def)

lemma serveLoop_quit:
  assumes w: "wfBuf b" and u: "used b = quitMsg @ post" and e: "err c = None"
  shows "serveLoop c b =
           \<lparr>conn = c\<lparr>socket := socket c @ [Write byeMsg]\<rparr>,
            buf = bufPop b (int (length quitMsg)), pc = AwaitWrite QuitWrite\<rparr>"
proof -
  have n: "nl \<notin> set ''quit''" by (simp add: nl_def)
  have u': "used b = ''quit'' @ nl # post" using u by (simp add: quitMsg_def)
  have l: "int (length quitMsg) = int (length ''quit'') + 1" by (simp add: quitMsg_def)
  have q: "''quit'' @ [nl] = quitMsg" by (simp add: quitMsg_def)
  note c = cutMessage_first(1) [OF w u' n, folded l, unfolded q]
  show ?thesis using c e by (simp add: serveLoop.simps soWrite_def)
qed

lemma serveLoop_acks:
  assumes "err c = None" "wfBuf b" "used b = concat msgs @ tail"
    "list_all isMessage msgs" "quitMsg \<notin> set msgs"
  shows "\<exists>b'. fold deliver (replicate (length msgs) (WriteDone None)) (serveLoop c b)
                = serveLoop (c\<lparr>socket := socket c @ map (\<lambda>m. Write (echoPrefix @ m)) msgs\<rparr>) b'
              \<and> wfBuf b' \<and> used b' = tail"
  using assms
proof (induction msgs arbitrary: c b)
  case Nil
  then have "fold deliver (replicate (length []) (WriteDone None)) (serveLoop c b)
                = serveLoop (c\<lparr>socket := socket c @ map (\<lambda>m. Write (echoPrefix @ m)) []\<rparr>) b
              \<and> wfBuf b \<and> used b = tail" by simp
  then show ?case by blast
next
  case (Cons m ms)
  let ?c1 = "c\<lparr>socket := socket c @ [Write (echoPrefix @ m)]\<rparr>"
  let ?b1 = "bufPop b (int (length m))"
  have u: "used b = m @ (concat ms @ tail)" using Cons.prems(3) by simp
  have mm: "isMessage m" and mq: "m \<noteq> quitMsg" using Cons.prems(4,5) by auto
  note s = serveLoop_echo [OF Cons.prems(2) u mm mq Cons.prems(1)]
  have "\<exists>b'. fold deliver (replicate (length ms) (WriteDone None)) (serveLoop ?c1 ?b1)
                = serveLoop (?c1\<lparr>socket := socket ?c1 @ map (\<lambda>m. Write (echoPrefix @ m)) ms\<rparr>) b'
              \<and> wfBuf b' \<and> used b' = tail"
    using Cons.prems by (intro Cons.IH s(2) s(3)) simp_all
  then obtain b' where
    b': "fold deliver (replicate (length ms) (WriteDone None)) (serveLoop ?c1 ?b1)
           = serveLoop (?c1\<lparr>socket := socket ?c1 @ map (\<lambda>m. Write (echoPrefix @ m)) ms\<rparr>) b'"
      "wfBuf b'" "used b' = tail" by blast
  have step: "fold deliver (replicate (length (m # ms)) (WriteDone None)) (serveLoop c b)
                = fold deliver (replicate (length ms) (WriteDone None)) (serveLoop ?c1 ?b1)"
    unfolding s(1) by (simp add: deliver_ack_echo del: deliver.simps)
  have "fold deliver (replicate (length (m # ms)) (WriteDone None)) (serveLoop c b)
          = serveLoop (c\<lparr>socket := socket c @ map (\<lambda>m. Write (echoPrefix @ m)) (m # ms)\<rparr>) b'"
    unfolding step b'(1) by simp
  with b'(2,3) show ?case by blast
qed

lemma serveLoop_acks_partial:
  assumes e: "err c = None" and w: "wfBuf b" and u: "used b = concat msgs @ tail"
    and m: "list_all isMessage msgs" and q: "quitMsg \<notin> set msgs" and j: "j < length msgs"
  shows "pc (fold deliver (replicate j (WriteDone None)) (serveLoop c b)) = AwaitWrite EchoWrite
       \<and> socket (conn (fold deliver (replicate j (WriteDone None)) (serveLoop c b)))
           = socket c @ map (\<lambda>m. Write (echoPrefix @ m)) (take (Suc j) msgs)"
proof -
  let ?W = "\<lambda>m. Write (echoPrefix @ m)"
  let ?pre = "take j msgs"
  let ?c1 = "c\<lparr>socket := socket c @ map ?W ?pre\<rparr>"
  have split: "msgs = ?pre @ msgs ! j # drop (Suc j) msgs"
    using j by (simp add: id_take_nth_drop [symmetric])
  have u': "used b = concat ?pre @ (msgs ! j @ concat (drop (Suc j) msgs) @ tail)"
    by (subst u, subst split) simp
  have m': "list_all isMessage ?pre" using m by (simp add: list_all_iff) (meson in_set_takeD)
  have q': "quitMsg \<notin> set ?pre" using q by (meson in_set_takeD)
  have lj: "length ?pre = j" using j by simp
  from serveLoop_acks [OF e w u' m' q', unfolded lj] obtain b' where
    b': "fold deliver (replicate j (WriteDone None)) (serveLoop c b) = serveLoop ?c1 b'"
      "wfBuf b'" "used b' = msgs ! j @ (concat (drop (Suc j) msgs) @ tail)" by auto
  have mj: "isMessage (msgs ! j)" using m j by (simp add: list_all_length)
  have qj: "msgs ! j \<noteq> quitMsg" using q j by (metis nth_mem)
  have e1: "err ?c1 = None" using e by simp
  note s = serveLoop_echo(1) [OF b'(2) b'(3) mj qj e1]
  show ?thesis unfolding b'(1) s using j by (simp add: take_Suc_conv_app_nth)
qed

lemma serveClient_start:
  "serveClient sock =
     \<lparr>conn = \<lparr>socket = sock @ [Resume], err = None, ended = False, reader = True\<rparr>,
      buf = emptyBuf, pc = AwaitRead\<rparr>"
proof -
  have "serveLoop (soInit sock) emptyBuf =
      \<lparr>conn = (soInit sock)\<lparr>reader := True, socket := socket (soInit sock) @ [Resume]\<rparr>,
       buf = emptyBuf, pc = AwaitRead\<rparr>"
    by (rule serveLoop_idle) (simp_all add: emptyBuf_used soInit_def, simp add: emptyBuf_def)
  then show ?thesis by (simp add: serveClient_def soInit_def)
qed

lemma deliver_data_blocked:
  assumes h: "blockedInRead h" and d: "d \<noteq> []"
  shows "\<exists>b1. deliver (Data d) h
               = serveLoop ((conn h)\<lparr>socket := socket (conn h) @ [Pause], reader := False\<rparr>) b1
             \<and> wfBuf b1 \<and> used b1 = used (buf h) @ d"
proof -
  from h have p: "pc h = AwaitRead" and r: "reader (conn h)" and w: "wfBuf (buf h)"
    by (simp_all add: blockedInRead_def)
  from bufPush_ok [OF w, of d] obtain b1 where
    b1: "bufPush (buf h) d = Inr b1" "wfBuf b1" "used b1 = used (buf h) @ d" by blast
  have "deliver (Data d) h
          = serveLoop ((conn h)\<lparr>socket := socket (conn h) @ [Pause], reader := False\<rparr>) b1"
    using p r d b1(1) by (simp add: settleRead_def onData_def Let_def)
  with b1 show ?thesis by blast
qed

text \<open>
  Claim C7 (echo replies, framing before reading). Let a handler be blocked in a read on
  a connection with no error and no end-of-stream, and let a non-empty chunk \<open>d\<close> arrive
  such that the buffered bytes followed by \<open>d\<close> begin with the messages \<open>msgs\<close>, none of
  them \<^verbatim>\<open>quit\<close>, followed by any \<open>tail\<close> (a partial line, a \<^verbatim>\<open>quit\<close> line, further
  messages). With every write acknowledged, the handler pauses the socket and then writes
  \<open>Echo: \<close> followed by each message, in order, one write per acknowledgement, with no
  \<^verbatim>\<open>resume\<close> in between. When the tail has no delimiter, it resumes the socket only after
  the last acknowledgement and blocks in the next read, with the tail in its buffer. When
  the tail starts with a \<^verbatim>\<open>quit\<close> line, the write that follows the echoes is \<open>Bye\<close>.
\<close>

theorem echo_replies_in_order:
  assumes "blockedInRead h" and "d \<noteq> []" and "used (buf h) @ d = concat msgs @ tail"
    and "list_all isMessage msgs" and "quitMsg \<notin> set msgs"
  shows "(\<forall>j<length msgs.
            pc (fold deliver (Data d # replicate j (WriteDone None)) h) = AwaitWrite EchoWrite
          \<and> socket (conn (fold deliver (Data d # replicate j (WriteDone None)) h))
              = socket (conn h) @ Pause # map (\<lambda>m. Write (echoPrefix @ m)) (take (Suc j) msgs))
       \<and> (nl \<notin> set tail \<longrightarrow>
            blockedInRead (fold deliver (Data d # replicate (length msgs) (WriteDone None)) h)
          \<and> used (buf (fold deliver (Data d # replicate (length msgs) (WriteDone None)) h)) = tail
          \<and> socket (conn (fold deliver (Data d # replicate (length msgs) (WriteDone None)) h))
              = socket (conn h) @ Pause # map (\<lambda>m. Write (echoPrefix @ m)) msgs @ [Resume])
       \<and> (\<forall>post. tail = quitMsg @ post \<longrightarrow>
            pc (fold deliver (Data d # replicate (length msgs) (WriteDone None)) h)
              = AwaitWrite QuitWrite
          \<and> socket (conn (fold deliver (Data d # replicate (length msgs) (WriteDone None)) h))
              = socket (conn h) @ Pause # map (\<lambda>m. Write (echoPrefix @ m)) msgs @ [Write byeMsg])"
proof -
  let ?W = "\<lambda>m. Write (echoPrefix @ m)"
  let ?c1 = "(conn h)\<lparr>socket := socket (conn h) @ [Pause], reader := False\<rparr>"
  let ?c2 = "?c1\<lparr>socket := socket ?c1 @ map ?W msgs\<rparr>"
  from deliver_data_blocked [OF assms(1,2)] obtain b1 where
    b1: "deliver (Data d) h = serveLoop ?c1 b1" "wfBuf b1" "used b1 = used (buf h) @ d"
    by blast
  have e: "err ?c1 = None" and n: "\<not> ended ?c1"
    using assms(1) by (simp_all add: blockedInRead_def)
  have u: "used b1 = concat msgs @ tail" using b1(3) assms(3) by simp
  have f: "fold deliver (Data d # evs) h = fold deliver evs (serveLoop ?c1 b1)" for evs
    using b1(1) by (simp del: deliver.simps)
  have part: "\<forall>j<length msgs.
            pc (fold deliver (Data d # replicate j (WriteDone None)) h) = AwaitWrite EchoWrite
          \<and> socket (conn (fold deliver (Data d # replicate j (WriteDone None)) h))
              = socket (conn h) @ Pause # map ?W (take (Suc j) msgs)"
    unfolding f using serveLoop_acks_partial [OF e b1(2) u assms(4,5)] by simp
  from serveLoop_acks [OF e b1(2) u assms(4,5)] obtain b' where
    b': "fold deliver (replicate (length msgs) (WriteDone None)) (serveLoop ?c1 b1)
           = serveLoop ?c2 b'" "wfBuf b'" "used b' = tail" by blast
  have e2: "err ?c2 = None" and n2: "\<not> ended ?c2" using e n by simp_all
  have idle: "blockedInRead (fold deliver (Data d # replicate (length msgs) (WriteDone None)) h)
          \<and> used (buf (fold deliver (Data d # replicate (length msgs) (WriteDone None)) h)) = tail
          \<and> socket (conn (fold deliver (Data d # replicate (length msgs) (WriteDone None)) h))
              = socket (conn h) @ Pause # map ?W msgs @ [Resume]"
    if t: "nl \<notin> set tail"
  proof -
    have s0: "0 \<le> size_b b'" using b'(2) by (simp add: wfBuf_def)
    have nu: "nl \<notin> set (used b')" using t b'(3) by simp
    note i = serveLoop_idle [OF s0 nu e2 n2]
    show ?thesis unfolding f b'(1) i using b'(2,3) e n
      by (simp add: blockedInRead_def)
  qed
  have quit: "pc (fold deliver (Data d # replicate (length msgs) (WriteDone None)) h)
              = AwaitWrite QuitWrite
          \<and> socket (conn (fold deliver (Data d # replicate (length msgs) (WriteDone None)) h))
              = socket (conn h) @ Pause # map ?W msgs @ [Write byeMsg]"
    if t: "tail = quitMsg @ post" for post
  proof -
    have uq: "used b' = quitMsg @ post" using t b'(3) by simp
    note k = serveLoop_quit [OF b'(2) uq e2]
    show ?thesis unfolding f b'(1) k by simp
  qed
  from part idle quit show ?thesis by blast
qed

theorem echo_replies_in_order_witness:
  "blockedInRead (serveClient [])
   \<and> socket (conn (fold deliver [Data (''x'' @ [nl] @ ''y'' @ [nl])] (serveClient [])))
       = [Resume, Pause, Write (''Echo: x'' @ [nl])]
   \<and> socket (conn (fold deliver [Data (''x'' @ [nl] @ ''y'' @ [nl]), WriteDone None, WriteDone None]
                     (serveClient [])))
       = [Resume, Pause, Write (''Echo: x'' @ [nl]), Write (''Echo: y'' @ [nl]), Resume]
   \<and> pc (fold deliver [Data (''hello'' @ [nl] @ ''quit'' @ [nl])] (serveClient []))
       = AwaitWrite EchoWrite
   \<and> socket (conn (fold deliver [Data (''hello'' @ [nl] @ ''quit'' @ [nl])] (serveClient [])))
       = [Resume, Pause, Write (''Echo: hello'' @ [nl])]
   \<and> socket (conn (fold deliver [Data (''hello'' @ [nl] @ ''quit'' @ [nl]), WriteDone None]
                     (serveClient [])))
       = [Resume, Pause, Write (''Echo: hello'' @ [nl]), Write (''Bye'' @ [nl])]"
proof -
  let ?d = "''x'' @ [nl] @ ''y'' @ [nl]"
  let ?msgs = "[''x'' @ [nl], ''y'' @ [nl]]"
  let ?d2 = "''hello'' @ [nl] @ ''quit'' @ [nl]"
  let ?msgs2 = "[''hello'' @ [nl]]"
  let ?W = "\<lambda>m. Write (echoPrefix @ m)"
  have h: "blockedInRead (serveClient [])"
    by (simp add: serveClient_start blockedInRead_def emptyBuf_wf)
  have s: "socket (conn (serveClient [])) = [Resume]" by (simp add: serveClient_start)
  have d: "?d \<noteq> []" by simp
  have u: "used (buf (serveClient [])) @ ?d = concat ?msgs @ []"
    by (simp add: serveClient_start emptyBuf_used)
  have m: "list_all isMessage ?msgs" by (simp add: isMessage_def nl_def)
  have q: "quitMsg \<notin> set ?msgs" by (simp add: quitMsg_def)
  note t = echo_replies_in_order [OF h d u m q, unfolded s]
  have a0: "socket (conn (fold deliver (Data ?d # replicate 0 (WriteDone None)) (serveClient [])))
              = [Resume] @ Pause # map ?W (take (Suc 0) ?msgs)"
    using t by (elim conjE allE [where x = 0]) simp
  have a2: "socket (conn (fold deliver (Data ?d # replicate (length ?msgs) (WriteDone None)) (serveClient [])))
              = [Resume] @ Pause # map ?W ?msgs @ [Resume]"
    using t by simp
  have d2: "?d2 \<noteq> []" by simp
  have u2: "used (buf (serveClient [])) @ ?d2 = concat ?msgs2 @ (quitMsg @ [])"
    by (simp add: serveClient_start emptyBuf_used quitMsg_def)
  have m2: "list_all isMessage ?msgs2" by (simp add: isMessage_def nl_def)
  have q2: "quitMsg \<notin> set ?msgs2" by (simp add: quitMsg_def)
  note t2 = echo_replies_in_order [OF h d2 u2 m2 q2, unfolded s]
  have b0: "pc (fold deliver (Data ?d2 # replicate 0 (WriteDone None)) (serveClient [])) = AwaitWrite EchoWrite
          \<and> socket (conn (fold deliver (Data ?d2 # replicate 0 (WriteDone None)) (serveClient [])))
              = [Resume] @ Pause # map ?W (take (Suc 0) ?msgs2)"
    using t2 by (elim conjE allE [where x = 0]) simp
  have b1: "socket (conn (fold deliver (Data ?d2 # replicate (length ?msgs2) (WriteDone None)) (serveClient [])))
              = [Resume] @ Pause # map ?W ?msgs2 @ [Write byeMsg]"
    using t2 by blast
  show ?thesis using h a0 a2 b0 b1
    by (simp add: echoPrefix_def byeMsg_def numeral_2_eq_2 del: deliver.simps fold_simps)
qed

text \<open>
  Claim C3 does not hold of the code. After one chunk that holds the line \<open>quit\<close> and
  then the line \<open>x\<close>, and the acknowledgement of the write of \<open>Bye\<close>, the handler
  destroys the socket and runs the loop again: it frames the line \<open>x\<close> and writes its echo
  on the destroyed socket. After a chunk that holds the line \<open>quit\<close> alone it destroys the
  socket, resumes it and blocks in a new read.
\<close>

theorem quit_does_not_end_the_loop:
  "socket (conn (fold deliver [Data (''quit'' @ [nl] @ ''x'' @ [nl]), WriteDone None] (serveClient [])))
     = [Resume, Pause, Write (''Bye'' @ [nl]), Destroy, Write (''Echo: x'' @ [nl])]
   \<and> pc (fold deliver [Data (''quit'' @ [nl] @ ''x'' @ [nl]), WriteDone None] (serveClient []))
     = AwaitWrite EchoWrite
   \<and> socket (conn (fold deliver [Data (''quit'' @ [nl]), WriteDone None] (serveClient [])))
     = [Resume, Pause, Write (''Bye'' @ [nl]), Destroy, Resume]
   \<and> pc (fold deliver [Data (''quit'' @ [nl]), WriteDone None] (serveClient [])) = AwaitRead
   \<and> reader (conn (fold deliver [Data (''quit'' @ [nl]), WriteDone None] (serveClient [])))"
  by code_simp

section \<open>The connection handler: exits\<close>

text \<open>
  On the paths that end a handler the handler itself makes no \<^verbatim>\<open>destroy()\<close> call:
  \<^verbatim>\<open>main\<close> calls \<^verbatim>\<open>serveClient\<close> with no \<^verbatim>\<open>try\<close>/\<^verbatim>\<open>finally\<close> around it. Here a handler
  returns at end of stream, one ends with the error of an \<^verbatim>\<open>error\<close> event and one with
  the error of a failed write.
\<close>

lemma exit_without_destroy:
  "pc (deliver End (serveClient [])) = Returned
   \<and> socket (conn (deliver End (serveClient []))) = [Resume]
   \<and> pc (deliver (Error (TransportError ''ECONNRESET'')) (serveClient []))
       = Threw (TransportError ''ECONNRESET'')
   \<and> socket (conn (deliver (Error (TransportError ''ECONNRESET'')) (serveClient []))) = [Resume]
   \<and> pc (fold deliver [Data (''hi'' @ [nl]), WriteDone (Some (TransportError ''EPIPE''))]
            (serveClient [])) = Threw (TransportError ''EPIPE'')
   \<and> socket (conn (fold deliver [Data (''hi'' @ [nl]), WriteDone (Some (TransportError ''EPIPE''))]
                     (serveClient [])))
       = [Resume, Pause, Write (''Echo: hi'' @ [nl])]"
  by code_simp














end
